theory Spec2Isabelle
  imports Main "HOL-Library.AList"
begin

section \<open>The per-resource lock manager (utils/concurrency)\<close>

text \<open>
  The module keeps one process-wide \<open>LockManager\<close> whose \<open>locks\<close> field is a JavaScript
  \<open>Map\<close> from the serialized lock key to an entry \<open>{timestamp, resourceType, resourceId}\<close>.
  A JavaScript \<open>Map\<close> iterates in insertion order, \<open>set\<close> on a new key appends, \<open>set\<close> on
  a present key overwrites in place and \<open>delete\<close> removes the key: an association list
  with \<open>AList.update\<close> and \<open>AList.delete\<close>. Times are the integer milliseconds of
  \<open>Date.now()\<close>. The logger is a write-only sink; what is written to it is kept as a list.
  The field \<open>waitingOperations\<close> of the class is created by the constructor and never read
  or written afterwards, so it carries no state of its own here.
\<close>

subsection \<open>Data\<close>

record lock =
  timestamp :: int
  resourceType :: string
  resourceId :: string

type_synonym 'v jsmap = "(string \<times> 'v) list"

definition has :: "'v jsmap \<Rightarrow> string \<Rightarrow> bool" where
  "has m k = (map_of m k \<noteq> None)"

datatype level = info | warn

record state =
  locks :: "lock jsmap"
  logged :: "(level \<times> string) list"

text \<open>\<open>new Error(message)\<close>: the middleware tells errors apart by their message.\<close>

datatype error = Error string

fun message :: "error \<Rightarrow> string" where
  "message (Error m) = m"

text \<open>
  What one synchronous piece of code hands back: a returned boolean, a thrown error,
  a suspension on the 100 ms timer (\<open>Sleep\<close>), or nothing (\<open>Done\<close>, for the sweep).
\<close>

datatype outcome = Return bool | Throw error | Sleep | Done

definition constructor :: state where
  "constructor = \<lparr>locks = [], logged = []\<rparr>"

subsection \<open>Lock keys\<close>

definition getLockKey :: "string \<Rightarrow> string \<Rightarrow> string" where
  "getLockKey rt rid = rt @ '':'' @ rid"

subsection \<open>acquireLock\<close>

text \<open>
  One pass through the head of the \<open>while\<close> loop of \<open>acquireLock\<close>, run at time \<open>now\<close>
  by a call that began at \<open>startTime\<close>. Nothing in it awaits, so the event loop runs it
  as one step: either the key is present (then the deadline is tested, and the call
  throws or goes to sleep for 100 ms), or it is absent and the entry is stored at once.
\<close>

definition acquire_poll ::
  "state \<Rightarrow> string \<Rightarrow> string \<Rightarrow> int \<Rightarrow> int \<Rightarrow> int \<Rightarrow> state \<times> outcome" where
  "acquire_poll s rt rid startTime maxWaitTime now =
     (let lockKey = getLockKey rt rid in
      if has (locks s) lockKey then
        (if now - startTime > maxWaitTime then
           (s\<lparr>logged := logged s @ [(warn, ''Lock acquisition timeout for '' @ lockKey)]\<rparr>,
            Throw (Error ''Lock acquisition timeout''))
         else (s, Sleep))
      else
        (s\<lparr>locks := AList.update lockKey
               \<lparr>timestamp = now, resourceType = rt, resourceId = rid\<rparr> (locks s),
           logged := logged s @ [(info, ''Lock acquired for '' @ lockKey)]\<rparr>,
         Return True))"

definition maxWaitTime_default :: int where
  "maxWaitTime_default = 5000"

subsection \<open>releaseLock, isLocked, cleanupStaleLocks\<close>

definition releaseLock :: "state \<Rightarrow> string \<Rightarrow> string \<Rightarrow> state \<times> bool" where
  "releaseLock s rt rid =
     (let lockKey = getLockKey rt rid in
      if has (locks s) lockKey then
        (s\<lparr>locks := AList.delete lockKey (locks s),
           logged := logged s @ [(info, ''Lock released for '' @ lockKey)]\<rparr>, True)
      else (s, False))"

definition isLocked :: "state \<Rightarrow> string \<Rightarrow> string \<Rightarrow> bool" where
  "isLocked s rt rid = has (locks s) (getLockKey rt rid)"

text \<open>
  The sweep walks the entries of the table and deletes, by key, each one older than
  30000 ms. Deleting the entry under the iterator is safe in a JavaScript \<open>Map\<close>: the
  remaining entries are still visited, in order.
\<close>

definition maxAge :: int where
  "maxAge = 30000"

fun cleanup_loop :: "int \<Rightarrow> (string \<times> lock) list \<Rightarrow> state \<Rightarrow> state" where
  "cleanup_loop now [] s = s"
| "cleanup_loop now ((key, l) # rest) s =
     cleanup_loop now rest
       (if now - timestamp l > maxAge then
          s\<lparr>locks := AList.delete key (locks s),
            logged := logged s @ [(warn, ''Cleaned up stale lock for '' @ key)]\<rparr>
        else s)"

definition cleanupStaleLocks :: "state \<Rightarrow> int \<Rightarrow> state" where
  "cleanupStaleLocks s now = cleanup_loop now (locks s) s"

subsection \<open>The event loop: interleaved operations\<close>

text \<open>
  Requests are multiplexed on one thread. Between two suspension points a piece of code
  runs alone, so a run of the process is a sequence of such pieces: a poll of some
  pending \<open>acquireLock\<close> call, a \<open>releaseLock\<close> call, or a tick of the sweep timer.
\<close>

datatype op =
    OpPoll string string int int int
  | OpRelease string string
  | OpSweep int

fun step :: "state \<Rightarrow> op \<Rightarrow> state \<times> outcome" where
  "step s (OpPoll rt rid startTime maxWaitTime now) =
     acquire_poll s rt rid startTime maxWaitTime now"
| "step s (OpRelease rt rid) = (case releaseLock s rt rid of (s', b) \<Rightarrow> (s', Return b))"
| "step s (OpSweep now) = (cleanupStaleLocks s now, Done)"

fun run :: "state \<Rightarrow> op list \<Rightarrow> state \<times> outcome list" where
  "run s [] = (s, [])"
| "run s (x # xs) =
     (case step s x of (s', r) \<Rightarrow> (case run s' xs of (s'', rs) \<Rightarrow> (s'', r # rs)))"

text \<open>
  The whole \<open>while\<close> loop of one call. Each element of the list describes one sleep of
  the call: the operations of other requests that ran meanwhile, and by how many
  milliseconds the 100 ms timer fired late. The call resumes at \<open>now + 100 + late\<close>.
  The result is the state, the outcome and the time at which the call settled;
  \<open>None\<close> means that the call is still waiting when the description ends.
\<close>

fun acquireLock_loop ::
  "state \<Rightarrow> string \<Rightarrow> string \<Rightarrow> int \<Rightarrow> int \<Rightarrow> int \<Rightarrow> (op list \<times> int) list
     \<Rightarrow> (state \<times> outcome \<times> int) option" where
  "acquireLock_loop s rt rid startTime maxWaitTime now [] =
     (case acquire_poll s rt rid startTime maxWaitTime now of
        (s', Sleep) \<Rightarrow> None
      | (s', r) \<Rightarrow> Some (s', r, now))"
| "acquireLock_loop s rt rid startTime maxWaitTime now ((others, late) # sleeps) =
     (case acquire_poll s rt rid startTime maxWaitTime now of
        (s', Sleep) \<Rightarrow>
          acquireLock_loop (fst (run s' others)) rt rid startTime maxWaitTime
            (now + 100 + late) sleeps
      | (s', r) \<Rightarrow> Some (s', r, now))"

definition acquireLock ::
  "state \<Rightarrow> string \<Rightarrow> string \<Rightarrow> int \<Rightarrow> int \<Rightarrow> (op list \<times> int) list
     \<Rightarrow> (state \<times> outcome \<times> int) option" where
  "acquireLock s rt rid maxWaitTime now sleeps =
     acquireLock_loop s rt rid now maxWaitTime now sleeps"

subsection \<open>concurrencyMiddleware\<close>

text \<open>
  Of the request the middleware reads \<open>req.method\<close> and \<open>req.params.id\<close> (which may be
  undefined); of the response it uses \<open>res.on\<close>, and \<open>res.status(409).json\<close>. The only
  callback it ever registers is the closure that releases the lock of the request.
  What the middleware does last is either \<open>next()\<close>, \<open>next(error)\<close> or sending the JSON
  body \<open>{error: ...}\<close> with a status code.
\<close>

record request =
  req_method :: string
  params_id :: "string option"

datatype callback = ReleaseLock string string

record response =
  listeners :: "(string \<times> callback) list"

datatype action = Next | NextError error | Json nat string

definition res_on :: "response \<Rightarrow> string \<Rightarrow> callback \<Rightarrow> response" where
  "res_on res ev cb = res\<lparr>listeners := listeners res @ [(ev, cb)]\<rparr>"

fun call :: "state \<Rightarrow> callback \<Rightarrow> state" where
  "call s (ReleaseLock rt rid) = fst (releaseLock s rt rid)"

text \<open>Emitting an event on the response runs the listeners registered under its name.\<close>

definition emit :: "state \<Rightarrow> response \<Rightarrow> string \<Rightarrow> state" where
  "emit s res ev = fold (\<lambda>(e, cb) s'. if e = ev then call s' cb else s') (listeners res) s"

definition emit_all :: "state \<Rightarrow> response \<Rightarrow> string list \<Rightarrow> state" where
  "emit_all s res evs = fold (\<lambda>ev s'. emit s' res ev) evs s"

text \<open>
  The events a Node.js response emits when its lifecycle ends: \<open>finish\<close> once the
  response has been handed to the socket (whatever its status), then \<open>close\<close>; only
  \<open>close\<close> when the connection is torn down before the response was sent.
\<close>

datatype exit_path = BodySent | Aborted

fun lifecycle :: "exit_path \<Rightarrow> string list" where
  "lifecycle BodySent = [''finish'', ''close'']"
| "lifecycle Aborted = [''close'']"

text \<open>The \<open>catch\<close> block of the middleware.\<close>

definition middleware_catch :: "error \<Rightarrow> action" where
  "middleware_catch e =
     (if message e = ''Lock acquisition timeout'' then
        Json 409 ''Resource is currently being modified by another request''
      else NextError e)"

definition concurrencyMiddleware ::
  "string \<Rightarrow> state \<Rightarrow> request \<Rightarrow> response \<Rightarrow> int \<Rightarrow> (op list \<times> int) list
     \<Rightarrow> (state \<times> response \<times> action) option" where
  "concurrencyMiddleware rt s req res now sleeps =
     (case params_id req of
        None \<Rightarrow> Some (s, res, Next)
      | Some rid \<Rightarrow>
          if rid = [] \<or> req_method req \<notin> set [''PUT'', ''DELETE'', ''PATCH''] then
            Some (s, res, Next)
          else
            (case acquireLock s rt rid maxWaitTime_default now sleeps of
               None \<Rightarrow> None
             | Some (s', Throw e, t) \<Rightarrow> Some (s', res, middleware_catch e)
             | Some (s', r, t) \<Rightarrow>
                 Some (s', res_on res ''finish'' (ReleaseLock rt rid), Next)))"

subsection \<open>The logger as a parameter\<close>

text \<open>
  The logger is the \<open>winston\<close> library, configured in \<open>utils/logger\<close>. The definitions
  above are the code when every call of the logger returns. A call of the logger is the
  one place in \<open>acquireLock\<close> where something other than the timeout can be thrown, so
  here the logger is a parameter: for the level and the message of a call it says
  whether the call returns (\<open>None\<close>) or throws (\<open>Some e\<close>, and then nothing is written).
  \<open>logger.warn\<close> comes before the \<open>throw\<close> of the timeout, and \<open>logger.info\<close> comes after
  \<open>this.locks.set\<close>: when it throws, the entry is already in the table. The operations
  of the other requests during a sleep are those that completed, as \<open>step\<close> has them.
  The \<open>catch\<close> block of the middleware is written out in place.
\<close>

type_synonym logger = "level \<Rightarrow> string \<Rightarrow> error option"

definition quiet :: logger where
  "quiet lv msg = None"

definition acquire_poll_with ::
  "logger \<Rightarrow> state \<Rightarrow> string \<Rightarrow> string \<Rightarrow> int \<Rightarrow> int \<Rightarrow> int \<Rightarrow> state \<times> outcome" where
  "acquire_poll_with lg s rt rid startTime maxWaitTime now =
     (let lockKey = getLockKey rt rid in
      if has (locks s) lockKey then
        (if now - startTime > maxWaitTime then
           (case lg warn (''Lock acquisition timeout for '' @ lockKey) of
              Some e \<Rightarrow> (s, Throw e)
            | None \<Rightarrow>
                (s\<lparr>logged := logged s @ [(warn, ''Lock acquisition timeout for '' @ lockKey)]\<rparr>,
                 Throw (Error ''Lock acquisition timeout'')))
         else (s, Sleep))
      else
        (let s' = s\<lparr>locks := AList.update lockKey
                      \<lparr>timestamp = now, resourceType = rt, resourceId = rid\<rparr> (locks s)\<rparr> in
         case lg info (''Lock acquired for '' @ lockKey) of
           Some e \<Rightarrow> (s', Throw e)
         | None \<Rightarrow>
             (s'\<lparr>logged := logged s @ [(info, ''Lock acquired for '' @ lockKey)]\<rparr>,
              Return True)))"

fun acquireLock_loop_with ::
  "logger \<Rightarrow> state \<Rightarrow> string \<Rightarrow> string \<Rightarrow> int \<Rightarrow> int \<Rightarrow> int \<Rightarrow> (op list \<times> int) list
     \<Rightarrow> (state \<times> outcome \<times> int) option" where
  "acquireLock_loop_with lg s rt rid startTime maxWaitTime now [] =
     (case acquire_poll_with lg s rt rid startTime maxWaitTime now of
        (s', Sleep) \<Rightarrow> None
      | (s', r) \<Rightarrow> Some (s', r, now))"
| "acquireLock_loop_with lg s rt rid startTime maxWaitTime now ((others, late) # sleeps) =
     (case acquire_poll_with lg s rt rid startTime maxWaitTime now of
        (s', Sleep) \<Rightarrow>
          acquireLock_loop_with lg (fst (run s' others)) rt rid startTime maxWaitTime
            (now + 100 + late) sleeps
      | (s', r) \<Rightarrow> Some (s', r, now))"

definition acquireLock_with ::
  "logger \<Rightarrow> state \<Rightarrow> string \<Rightarrow> string \<Rightarrow> int \<Rightarrow> int \<Rightarrow> (op list \<times> int) list
     \<Rightarrow> (state \<times> outcome \<times> int) option" where
  "acquireLock_with lg s rt rid maxWaitTime now sleeps =
     acquireLock_loop_with lg s rt rid now maxWaitTime now sleeps"

definition concurrencyMiddleware_with ::
  "logger \<Rightarrow> string \<Rightarrow> state \<Rightarrow> request \<Rightarrow> response \<Rightarrow> int \<Rightarrow> (op list \<times> int) list
     \<Rightarrow> (state \<times> response \<times> action) option" where
  "concurrencyMiddleware_with lg rt s req res now sleeps =
     (case params_id req of
        None \<Rightarrow> Some (s, res, Next)
      | Some rid \<Rightarrow>
          if rid = [] \<or> req_method req \<notin> set [''PUT'', ''DELETE'', ''PATCH''] then
            Some (s, res, Next)
          else
            (case acquireLock_with lg s rt rid maxWaitTime_default now sleeps of
               None \<Rightarrow> None
             | Some (s', Throw e, t) \<Rightarrow>
                 Some (s', res,
                   if message e = ''Lock acquisition timeout'' then
                     Json 409 ''Resource is currently being modified by another request''
                   else NextError e)
             | Some (s', r, t) \<Rightarrow>
                 Some (s', res_on res ''finish'' (ReleaseLock rt rid), Next)))"

subsection \<open>Notions used to state the properties\<close>

text \<open>A JavaScript \<open>Map\<close> holds each key once: the representation invariant of the table.\<close>

definition unique_keys :: "state \<Rightarrow> bool" where
  "unique_keys s = distinct (map fst (locks s))"

text \<open>The entries stored under a key.\<close>

definition entries_for :: "string \<Rightarrow> state \<Rightarrow> (string \<times> lock) list" where
  "entries_for k s = filter (\<lambda>e. fst e = k) (locks s)"

text \<open>The test of the sweep: the entry is older than 30000 ms at time \<open>now\<close>.\<close>

definition stale :: "int \<Rightarrow> lock \<Rightarrow> bool" where
  "stale now l = (now - timestamp l > maxAge)"

text \<open>A poll of some \<open>acquireLock\<close> call whose arguments serialize to the key \<open>k\<close>.\<close>

fun is_poll_for :: "string \<Rightarrow> op \<Rightarrow> bool" where
  "is_poll_for k (OpPoll rt rid startTime maxWaitTime now) = (getLockKey rt rid = k)"
| "is_poll_for k (OpRelease rt rid) = False"
| "is_poll_for k (OpSweep now) = False"

text \<open>The table is a proper map and stores the entry \<open>l\<close> under the key \<open>k\<close>.\<close>

definition holds :: "state \<Rightarrow> string \<Rightarrow> lock \<Rightarrow> bool" where
  "holds s k l = (unique_keys s \<and> map_of (locks s) k = Some l)"

text \<open>An operation that is a release of the key \<open>k\<close>; a sweep that runs after time \<open>t\<close>.\<close>

fun releases :: "string \<Rightarrow> op \<Rightarrow> bool" where
  "releases k (OpPoll rt rid startTime maxWaitTime now) = False"
| "releases k (OpRelease rt rid) = (getLockKey rt rid = k)"
| "releases k (OpSweep now) = False"

fun sweeps_after :: "int \<Rightarrow> op \<Rightarrow> bool" where
  "sweeps_after t (OpPoll rt rid startTime maxWaitTime now) = False"
| "sweeps_after t (OpRelease rt rid) = False"
| "sweeps_after t (OpSweep now) = (t < now)"

text \<open>
  An operation of another request that leaves alone the entry stored under \<open>k\<close> at time
  \<open>t0\<close>: it is not a release of \<open>k\<close>, and if it is a sweep it runs while the entry is at
  most 30000 ms old. (A poll never removes anything.)
\<close>

definition keeps :: "string \<Rightarrow> int \<Rightarrow> op \<Rightarrow> bool" where
  "keeps k t0 x = (\<not> releases k x \<and> \<not> sweeps_after (t0 + maxAge) x)"

subsection \<open>Scenarios\<close>

text \<open>Two requests have taken the locks of jobs 1 and 2, at times 0 and 7.\<close>

definition two_jobs :: state where
  "two_jobs = fst (run constructor [OpPoll ''job'' ''1'' 0 5000 0, OpPoll ''job'' ''2'' 7 5000 7])"

text \<open>One request has taken the lock of job 42 at time 0.\<close>

definition job42_held :: state where
  "job42_held = fst (run constructor [OpPoll ''job'' ''42'' 0 5000 0])"

text \<open>\<open>n\<close> sleeps on an exact timer during which no other request runs.\<close>

definition undisturbed :: "nat \<Rightarrow> (op list \<times> int) list" where
  "undisturbed n = replicate n ([], 0)"

text \<open>
  Three calls for job 3 polling in the same tick at time 10: one that has just begun,
  one that began at 9 and waits 0 ms, and one that began at 0 and waits 5000 ms.
\<close>

definition three_polls :: "op list" where
  "three_polls = [OpPoll ''job'' ''3'' 10 5000 10, OpPoll ''job'' ''3'' 9 0 10,
                  OpPoll ''job'' ''3'' 0 5000 10]"

text \<open>A \<open>PUT\<close> and a \<open>GET\<close> with the path identifier 42, and a response without listeners.\<close>

definition put42 :: request where
  "put42 = \<lparr>req_method = ''PUT'', params_id = Some ''42''\<rparr>"

definition get42 :: request where
  "get42 = \<lparr>req_method = ''GET'', params_id = Some ''42''\<rparr>"

definition fresh_response :: response where
  "fresh_response = \<lparr>listeners = []\<rparr>"

text \<open>A logger every call of which throws.\<close>

definition disk_full :: logger where
  "disk_full lv msg = Some (Error ''disk full'')"

section \<open>Properties\<close>

subsection \<open>The table as a map\<close>

lemma has_update: "has (AList.update k v m) k' = (k' = k \<or> has m k')"
  by (auto simp: has_def update_conv')

lemma has_delete: "has (AList.delete k m) k' = (k' \<noteq> k \<and> has m k')"
  by (auto simp: has_def delete_conv')

lemma has_iff: "has m k = (k \<in> fst ` set m)"
  by (simp add: has_def map_of_eq_None_iff)

lemma unique_keys_constructor: "unique_keys constructor"
  by (simp add: unique_keys_def constructor_def)

lemma unique_keys_acquire_poll:
  "unique_keys s \<Longrightarrow> unique_keys (fst (acquire_poll s rt rid st mw now))"
  by (simp add: unique_keys_def acquire_poll_def Let_def distinct_update)

lemma unique_keys_releaseLock:
  "unique_keys s \<Longrightarrow> unique_keys (fst (releaseLock s rt rid))"
  by (simp add: unique_keys_def releaseLock_def Let_def distinct_delete)

text \<open>The sweep deletes every key that has a stale entry among the entries it visits.\<close>

lemma locks_cleanup_loop:
  "locks (cleanup_loop now ys s) =
     filter (\<lambda>(k, l). k \<notin> fst ` {e \<in> set ys. stale now (snd e)}) (locks s)"
proof (induction ys arbitrary: s)
  case Nil
  then show ?case by simp
next
  case (Cons e ys)
  obtain key l where e: "e = (key, l)" by (cases e)
  show ?case
    unfolding e cleanup_loop.simps Cons.IH
    by (auto simp: AList.delete_eq stale_def image_iff intro!: filter_cong)
qed

lemma locks_cleanupStaleLocks:
  assumes "unique_keys s"
  shows "locks (cleanupStaleLocks s now) = filter (\<lambda>(k, l). \<not> stale now l) (locks s)"
proof -
  have "\<And>k l. (k, l) \<in> set (locks s) \<Longrightarrow>
      (k \<in> fst ` {e \<in> set (locks s). stale now (snd e)}) = stale now l"
    using assms unfolding unique_keys_def
    by (force simp: image_iff dest: eq_key_imp_eq_value)
  then show ?thesis
    unfolding cleanupStaleLocks_def locks_cleanup_loop
    by (auto intro!: filter_cong)
qed

lemma unique_keys_cleanupStaleLocks:
  "unique_keys s \<Longrightarrow> unique_keys (cleanupStaleLocks s now)"
  using locks_cleanupStaleLocks[of s now]
  by (simp add: unique_keys_def distinct_map_filter)

lemma unique_keys_step: "unique_keys s \<Longrightarrow> unique_keys (fst (step s x))"
  by (cases x)
     (simp_all add: unique_keys_acquire_poll unique_keys_releaseLock
        unique_keys_cleanupStaleLocks split: prod.split,
      metis fst_conv unique_keys_releaseLock)

lemma unique_keys_run: "unique_keys s \<Longrightarrow> unique_keys (fst (run s xs))"
proof (induction xs arbitrary: s)
  case Nil
  then show ?case by simp
next
  case (Cons x xs)
  from Cons.IH[OF unique_keys_step[OF Cons.prems, of x]]
  show ?case by (simp split: prod.split) (metis fst_conv)
qed

lemma fst_step_OpRelease: "fst (step s (OpRelease rt rid)) = fst (releaseLock s rt rid)"
  by (simp split: prod.splits)

lemma fst_run_Cons: "fst (run s (x # xs)) = fst (run (fst (step s x)) xs)"
  by (simp split: prod.splits)

lemma snd_run_Cons: "snd (run s (x # xs)) = snd (step s x) # snd (run (fst (step s x)) xs)"
  by (simp split: prod.splits)

subsection \<open>One poll\<close>

lemma acquire_poll_held:
  "has (locks s) (getLockKey rt rid) \<Longrightarrow>
     locks (fst (acquire_poll s rt rid st mw now)) = locks s \<and>
     (snd (acquire_poll s rt rid st mw now) = Sleep \<or>
      snd (acquire_poll s rt rid st mw now) = Throw (Error ''Lock acquisition timeout''))"
  by (simp add: acquire_poll_def Let_def)

lemma acquire_poll_free:
  "\<not> has (locks s) (getLockKey rt rid) \<Longrightarrow>
     snd (acquire_poll s rt rid st mw now) = Return True \<and>
     locks (fst (acquire_poll s rt rid st mw now)) =
       locks s @ [(getLockKey rt rid, \<lparr>timestamp = now, resourceType = rt, resourceId = rid\<rparr>)]"
proof -
  have "\<And>k v m. \<not> has m k \<Longrightarrow> AList.update k v m = m @ [(k, v)]"
    subgoal for k v m by (induction m) (auto simp: has_def)
    done
  then show "\<not> has (locks s) (getLockKey rt rid) \<Longrightarrow> ?thesis"
    by (simp add: acquire_poll_def Let_def)
qed

lemma acquireLock_free:
  assumes "\<not> has (locks s) (getLockKey rt rid)"
  shows "acquireLock s rt rid mw t sleeps = Some (fst (acquire_poll s rt rid t mw t), Return True, t)"
proof -
  from acquire_poll_free[OF assms, of t mw t]
  have "acquire_poll s rt rid t mw t = (fst (acquire_poll s rt rid t mw t), Return True)"
    by (metis prod.collapse)
  then show ?thesis
    unfolding acquireLock_def
    by (cases sleeps) (auto split: prod.splits outcome.splits)
qed

lemma polls_on_held:
  "has (locks s) k \<Longrightarrow> \<forall>p\<in>set polls. is_poll_for k p \<Longrightarrow>
     locks (fst (run s polls)) = locks s \<and>
     (\<forall>r\<in>set (snd (run s polls)). r = Sleep \<or> r = Throw (Error ''Lock acquisition timeout''))"
proof (induction polls arbitrary: s)
  case Nil
  then show ?case by simp
next
  case (Cons p polls)
  from Cons.prems obtain rt rid st mw now
    where p: "p = OpPoll rt rid st mw now" and k: "getLockKey rt rid = k"
    by (cases p) auto
  let ?s1 = "fst (acquire_poll s rt rid st mw now)"
  from acquire_poll_held[of s rt rid st mw now] Cons.prems(1) k
  have s1: "locks ?s1 = locks s"
    and r1: "snd (acquire_poll s rt rid st mw now) = Sleep \<or>
      snd (acquire_poll s rt rid st mw now) = Throw (Error ''Lock acquisition timeout'')"
    by auto
  from s1 Cons.prems(1) have "has (locks ?s1) k" by simp
  from Cons.IH[OF this] Cons.prems(2)
  have "locks (fst (run ?s1 polls)) = locks ?s1 \<and>
     (\<forall>r\<in>set (snd (run ?s1 polls)). r = Sleep \<or> r = Throw (Error ''Lock acquisition timeout''))"
    by simp
  with s1 r1 show ?case
    by (auto simp: p split: prod.splits)
qed

lemma entries_for_unique: "unique_keys s \<Longrightarrow> length (entries_for k s) \<le> 1"
proof -
  have "\<And>m :: (string \<times> lock) list. distinct (map fst m) \<Longrightarrow> length (filter (\<lambda>e. fst e = k) m) \<le> 1"
    subgoal for m by (induction m) (auto simp: filter_empty_conv image_iff)
    done
  then show "unique_keys s \<Longrightarrow> ?thesis"
    by (simp add: unique_keys_def entries_for_def)
qed

subsection \<open>An entry that nobody removes\<close>

lemma holds_has: "holds s k l \<Longrightarrow> has (locks s) k"
  by (simp add: holds_def has_def)

lemma holds_logged: "holds s k l \<Longrightarrow> holds (s\<lparr>logged := lg\<rparr>) k l"
  by (simp add: holds_def unique_keys_def)

lemma holds_entry: "holds s k l \<Longrightarrow> (k, l') \<in> set (locks s) \<longleftrightarrow> l' = l"
  unfolding holds_def unique_keys_def
  by (metis map_of_SomeD map_of_is_SomeI option.inject)

lemma holds_step:
  assumes "holds s k l" and "keeps k (timestamp l) x"
  shows "holds (fst (step s x)) k l"
proof (cases x)
  case (OpPoll rt rid st mw now)
  have "map_of (locks (fst (acquire_poll s rt rid st mw now))) k = Some l"
    using assms(1) by (auto simp: holds_def acquire_poll_def Let_def update_conv' has_def)
  with assms(1) show ?thesis
    by (simp add: OpPoll holds_def unique_keys_acquire_poll)
next
  case (OpRelease rt rid)
  with assms(2) have "getLockKey rt rid \<noteq> k" by (simp add: keeps_def)
  then have "map_of (locks (fst (releaseLock s rt rid))) k = Some l"
    using assms(1) by (auto simp: holds_def releaseLock_def Let_def delete_conv')
  with assms(1) unique_keys_releaseLock[of s rt rid] show ?thesis
    unfolding OpRelease fst_step_OpRelease by (simp add: holds_def)
next
  case (OpSweep now)
  with assms(2) have young: "\<not> stale now l" by (simp add: stale_def keeps_def)
  from assms(1) have u: "unique_keys s" and m: "map_of (locks s) k = Some l"
    by (simp_all add: holds_def)
  have u': "unique_keys (cleanupStaleLocks s now)"
    by (rule unique_keys_cleanupStaleLocks[OF u])
  from m have "(k, l) \<in> set (locks s)" by (rule map_of_SomeD)
  with young have "(k, l) \<in> set (locks (cleanupStaleLocks s now))"
    by (simp add: locks_cleanupStaleLocks[OF u])
  with u' have "map_of (locks (cleanupStaleLocks s now)) k = Some l"
    by (simp add: unique_keys_def)
  with u' show ?thesis by (simp add: OpSweep holds_def)
qed

lemma holds_run:
  "holds s k l \<Longrightarrow> \<forall>x\<in>set xs. keeps k (timestamp l) x \<Longrightarrow> holds (fst (run s xs)) k l"
proof (induction xs arbitrary: s)
  case Nil
  then show ?case by simp
next
  case (Cons x xs)
  from Cons.prems have "holds (fst (step s x)) k l" by (simp add: holds_step)
  from Cons.IH[OF this] Cons.prems(2) show ?case
    unfolding fst_run_Cons by simp
qed

lemma holds_job42: "holds job42_held (getLockKey ''job'' ''42'')
    \<lparr>timestamp = 0, resourceType = ''job'', resourceId = ''42''\<rparr>"
  by (simp add: holds_def unique_keys_def job42_held_def constructor_def acquire_poll_def
      getLockKey_def has_def Let_def)

text \<open>
  The loop against an entry that stays: with timers at most \<open>d\<close> ms late and enough
  sleeps described, the call throws, at a poll later than the deadline by at most one
  interval and \<open>d\<close>.
\<close>

lemma acquireLock_loop_timeout:
  assumes "holds s (getLockKey rt rid) l"
    and "\<forall>(others, late)\<in>set sleeps. 0 \<le> late \<and> late \<le> d \<and>
           (\<forall>x\<in>set others. keeps (getLockKey rt rid) (timestamp l) x)"
    and "now - st \<le> mw + 100 + d"
    and "mw - (now - st) < 100 * int (length sleeps)"
  shows "\<exists>s' t. acquireLock_loop s rt rid st mw now sleeps
             = Some (s', Throw (Error ''Lock acquisition timeout''), t)
           \<and> mw < t - st \<and> t - st \<le> mw + 100 + d \<and> holds s' (getLockKey rt rid) l"
  using assms
proof (induction sleeps arbitrary: s now)
  case Nil
  then have late: "now - st > mw" by simp
  with Nil.prems(3) holds_has[OF Nil.prems(1)] holds_logged[OF Nil.prems(1)] show ?case
    by (simp add: acquire_poll_def Let_def)
next
  case (Cons sl sleeps)
  obtain others late where sl: "sl = (others, late)" by (cases sl)
  show ?case
  proof (cases "now - st > mw")
    case True
    with Cons.prems(3) holds_has[OF Cons.prems(1)] holds_logged[OF Cons.prems(1)] show ?thesis
      by (simp add: sl acquire_poll_def Let_def)
  next
    case False
    from Cons.prems(2) have late: "0 \<le> late" "late \<le> d"
      and others: "\<forall>x\<in>set others. keeps (getLockKey rt rid) (timestamp l) x"
      and rest: "\<forall>(others, late)\<in>set sleeps. 0 \<le> late \<and> late \<le> d \<and>
           (\<forall>x\<in>set others. keeps (getLockKey rt rid) (timestamp l) x)"
      by (auto simp: sl)
    have h: "holds (fst (run s others)) (getLockKey rt rid) l"
      by (rule holds_run[OF Cons.prems(1) others])
    have b: "now + 100 + late - st \<le> mw + 100 + d"
      using False late by simp
    have f: "mw - (now + 100 + late - st) < 100 * int (length sleeps)"
      using Cons.prems(4) late by simp
    from Cons.IH[OF h rest b f] False holds_has[OF Cons.prems(1)] show ?thesis
      by (simp add: sl acquire_poll_def Let_def)
  qed
qed

text \<open>The loop when the holder releases during the first sleep that ends after the deadline.\<close>

lemma acquireLock_loop_late_success:
  assumes "has (locks s) (getLockKey rt rid)"
    and "now + 100 * int n - st \<le> mw"
  shows "\<exists>s'. acquireLock_loop s rt rid st mw now (undisturbed n @ [([OpRelease rt rid], 0)])
           = Some (s', Return True, now + 100 * (int n + 1))"
  using assms
proof (induction n arbitrary: now)
  case 0
  then have sleep: "acquire_poll s rt rid st mw now = (s, Sleep)"
    by (simp add: acquire_poll_def Let_def)
  have "\<not> has (locks (fst (releaseLock s rt rid))) (getLockKey rt rid)"
    by (simp add: releaseLock_def Let_def has_delete)
  from acquire_poll_free[OF this, of st mw "now + 100"] show ?case
    by (auto simp: undisturbed_def sleep split: prod.splits)
next
  case (Suc n)
  then have sleep: "acquire_poll s rt rid st mw now = (s, Sleep)"
    by (simp add: acquire_poll_def Let_def)
  from Suc.prems have "now + 100 + 100 * int n - st \<le> mw" by simp
  from Suc.IH[OF Suc.prems(1) this] show ?case
    by (simp add: undisturbed_def sleep algebra_simps)
qed

subsection \<open>Lock keys\<close>

text \<open>
  For one resource type, two ids give the same key only when they are equal; and over
  resource types without a colon (as are the six the server mounts the middleware with:
  pad, job, operator, incident, incident-type, fault-category) the key determines the pair.
\<close>

lemma getLockKey_same_type: "getLockKey rt a = getLockKey rt b \<longleftrightarrow> a = b"
  by (simp add: getLockKey_def)

lemma getLockKey_inj_no_colon:
  "CHR '':'' \<notin> set rt1 \<Longrightarrow> CHR '':'' \<notin> set rt2 \<Longrightarrow>
     getLockKey rt1 a = getLockKey rt2 b \<longleftrightarrow> rt1 = rt2 \<and> a = b"
  unfolding getLockKey_def
proof (induction rt1 arbitrary: rt2)
  case Nil
  then show ?case by (cases rt2) auto
next
  case (Cons c rt1)
  then show ?case by (cases rt2) auto
qed

text \<open>
  C4. Two operations contend for the same lock exactly when their resource types and
  their resource ids are equal strings, that is, the key derivation is injective on
  pairs. The code joins the two strings with a colon and escapes nothing, so two
  different pairs can serialize to one key: the pairs \<open>(a:b, c)\<close> and \<open>(a, b:c)\<close>
  both give \<open>a:b:c\<close>.
\<close>

theorem getLockKey_collision:
  "(''a:b'', ''c'') \<noteq> (''a'', ''b:c'') \<and> getLockKey ''a:b'' ''c'' = getLockKey ''a'' ''b:c''"
  by (simp add: getLockKey_def)

subsection \<open>releaseLock\<close>

text \<open>
  C5. \<open>releaseLock\<close> removes the entry of the key when there is one and returns true;
  when there is none it returns false and changes nothing, so a second release in a
  row returns false; the entries of every other key stay as they were (the table
  afterwards is the table before without the entries of this key). The function has
  no suspension point and no \<open>throw\<close>: it is a total function of the state.
\<close>

theorem releaseLock_contract:
  "(has (locks s) (getLockKey rt rid) \<longrightarrow>
      snd (releaseLock s rt rid) = True \<and>
      \<not> has (locks (fst (releaseLock s rt rid))) (getLockKey rt rid))
   \<and> (\<not> has (locks s) (getLockKey rt rid) \<longrightarrow> releaseLock s rt rid = (s, False))
   \<and> snd (releaseLock (fst (releaseLock s rt rid)) rt rid) = False
   \<and> locks (fst (releaseLock s rt rid)) = filter (\<lambda>(k, l). k \<noteq> getLockKey rt rid) (locks s)
   \<and> (\<forall>k. k \<noteq> getLockKey rt rid \<longrightarrow>
        map_of (locks (fst (releaseLock s rt rid))) k = map_of (locks s) k)"
proof -
  let ?k = "getLockKey rt rid"
  have absent: "\<not> has (locks s) ?k \<Longrightarrow> filter (\<lambda>(k, l). k \<noteq> ?k) (locks s) = locks s"
    by (rule filter_True) (force simp: has_iff)
  have "locks (fst (releaseLock s rt rid)) = filter (\<lambda>(k, l). k \<noteq> ?k) (locks s)"
    using absent by (auto simp: releaseLock_def Let_def AList.delete_eq intro: filter_cong)
  moreover have "\<not> has (locks (fst (releaseLock s rt rid))) ?k"
    by (simp add: releaseLock_def Let_def has_delete)
  moreover have "\<forall>k. k \<noteq> ?k \<longrightarrow> map_of (locks (fst (releaseLock s rt rid))) k = map_of (locks s) k"
    by (simp add: releaseLock_def Let_def)
  moreover have "has (locks s) ?k \<longrightarrow> snd (releaseLock s rt rid) = True"
    by (simp add: releaseLock_def Let_def)
  moreover have "\<not> has (locks s) ?k \<longrightarrow> releaseLock s rt rid = (s, False)"
    by (simp add: releaseLock_def Let_def)
  moreover have "snd (releaseLock (fst (releaseLock s rt rid)) rt rid) = False"
    by (simp add: releaseLock_def Let_def has_delete)
  ultimately show ?thesis
    by blast
qed

theorem releaseLock_contract_witness:
  "has (locks two_jobs) (getLockKey ''job'' ''1'')
   \<and> snd (releaseLock two_jobs ''job'' ''1'') = True
   \<and> \<not> has (locks (fst (releaseLock two_jobs ''job'' ''1''))) (getLockKey ''job'' ''1'')
   \<and> \<not> has (locks two_jobs) (getLockKey ''job'' ''3'')
   \<and> releaseLock two_jobs ''job'' ''3'' = (two_jobs, False)
   \<and> getLockKey ''job'' ''2'' \<noteq> getLockKey ''job'' ''1''
   \<and> map_of (locks (fst (releaseLock two_jobs ''job'' ''1''))) (getLockKey ''job'' ''2'')
       = map_of (locks two_jobs) (getLockKey ''job'' ''2'')"
  using releaseLock_contract [of two_jobs "''job''" "''1''"]
    releaseLock_contract [of two_jobs "''job''" "''3''"]
  by (simp add: two_jobs_def constructor_def acquire_poll_def getLockKey_def has_def Let_def)

subsection \<open>Mutual exclusion\<close>

text \<open>
  C1. At any time, that is after any sequence of polls, releases and sweeps run by the
  event loop on the table the constructor made, each key has at most one entry.
  A poll stores an entry only when it finds none under the key: on a held key it leaves
  the table as it is and does not return success. When several calls for one free key
  poll one after the other, in whatever order the event loop takes them, the first
  stores the entry and returns; every other one goes back to sleep or throws the
  timeout. The table then holds exactly one more entry, the one under that key.
\<close>

theorem mutual_exclusion:
  "length (entries_for k (fst (run constructor ops))) \<le> 1
   \<and> (has (locks s) (getLockKey rt rid) \<longrightarrow>
        locks (fst (acquire_poll s rt rid st mw now)) = locks s \<and>
        snd (acquire_poll s rt rid st mw now) \<noteq> Return True)
   \<and> (\<not> has (locks s) k \<and> polls \<noteq> [] \<and> (\<forall>p\<in>set polls. is_poll_for k p) \<longrightarrow>
        (\<exists>rs. snd (run s polls) = Return True # rs \<and>
           (\<forall>r\<in>set rs. r = Sleep \<or> r = Throw (Error ''Lock acquisition timeout''))) \<and>
        (\<exists>l. locks (fst (run s polls)) = locks s @ [(k, l)]) \<and>
        length (entries_for k (fst (run s polls))) = 1)"
proof (intro conjI impI)
  show "length (entries_for k (fst (run constructor ops))) \<le> 1"
    by (rule entries_for_unique) (rule unique_keys_run, rule unique_keys_constructor)
next
  assume "has (locks s) (getLockKey rt rid)"
  from acquire_poll_held[OF this, of st mw now]
  show "locks (fst (acquire_poll s rt rid st mw now)) = locks s"
    and "snd (acquire_poll s rt rid st mw now) \<noteq> Return True"
    by auto
next
  assume a: "\<not> has (locks s) k \<and> polls \<noteq> [] \<and> (\<forall>p\<in>set polls. is_poll_for k p)"
  then obtain p rest where polls: "polls = p # rest" by (cases polls) auto
  with a obtain rt' rid' st' mw' now'
    where p: "p = OpPoll rt' rid' st' mw' now'" and k: "getLockKey rt' rid' = k"
    by (cases p) auto
  let ?s1 = "fst (acquire_poll s rt' rid' st' mw' now')"
  let ?l = "\<lparr>timestamp = now', resourceType = rt', resourceId = rid'\<rparr>"
  from a k acquire_poll_free[of s rt' rid' st' mw' now']
  have r1: "snd (acquire_poll s rt' rid' st' mw' now') = Return True"
    and s1: "locks ?s1 = locks s @ [(k, ?l)]"
    by auto
  from s1 have held: "has (locks ?s1) k" by (simp add: has_iff)
  from a polls have "\<forall>p\<in>set rest. is_poll_for k p" by simp
  from polls_on_held[OF held this]
  have rest: "locks (fst (run ?s1 rest)) = locks ?s1"
    "\<forall>r\<in>set (snd (run ?s1 rest)). r = Sleep \<or> r = Throw (Error ''Lock acquisition timeout'')"
    by auto
  have final: "locks (fst (run s polls)) = locks s @ [(k, ?l)]"
    unfolding polls fst_run_Cons using rest(1) s1 by (simp add: p)
  show "\<exists>rs. snd (run s polls) = Return True # rs \<and>
           (\<forall>r\<in>set rs. r = Sleep \<or> r = Throw (Error ''Lock acquisition timeout''))"
    unfolding polls snd_run_Cons using rest(2) r1 by (simp add: p)
  show "\<exists>l. locks (fst (run s polls)) = locks s @ [(k, l)]"
    using final by blast
  have "filter (\<lambda>e. fst e = k) (locks s) = []"
    using a by (auto simp: filter_empty_conv has_iff)
  then show "length (entries_for k (fst (run s polls))) = 1"
    by (simp add: entries_for_def final)
qed

theorem mutual_exclusion_witness:
  "has (locks two_jobs) (getLockKey ''job'' ''1'')
   \<and> locks (fst (acquire_poll two_jobs ''job'' ''1'' 40 5000 50)) = locks two_jobs
   \<and> \<not> has (locks two_jobs) ''job:3''
   \<and> list_all (is_poll_for ''job:3'') three_polls
   \<and> snd (run two_jobs three_polls) =
       [Return True, Throw (Error ''Lock acquisition timeout''), Sleep]
   \<and> length (entries_for ''job:3'' (fst (run two_jobs three_polls))) = 1"
  using mutual_exclusion [of "''job:3''" "[]" two_jobs "''job''" "''1''" 40 5000 50 three_polls]
  by (simp add: two_jobs_def three_polls_def constructor_def acquire_poll_def getLockKey_def
      has_def Let_def entries_for_def)

subsection \<open>The timeout of acquireLock\<close>

text \<open>
  C2. A call of \<open>acquireLock\<close> with a wait of \<open>maxWaitTime\<close> (not negative) on a key whose
  entry nobody removes meanwhile (no release of the key, no sweep late enough to reclaim
  it) throws the error \<open>Lock acquisition timeout\<close>, provided the run is long enough for
  the polls to pass the deadline. With every 100 ms timer at most \<open>d\<close> ms late, the call
  throws later than \<open>maxWaitTime\<close> after it began, and at most \<open>100 + d\<close> ms later than
  that: on exact timers (\<open>d = 0\<close>) within one polling interval. The key is still locked.
\<close>

theorem acquireLock_timeout:
  assumes "holds s (getLockKey rt rid) l"
    and "\<forall>(others, late)\<in>set sleeps. 0 \<le> late \<and> late \<le> d \<and>
           (\<forall>x\<in>set others. keeps (getLockKey rt rid) (timestamp l) x)"
    and "0 \<le> maxWaitTime" and "0 \<le> d"
    and "maxWaitTime < 100 * int (length sleeps)"
  shows "\<exists>s' t. acquireLock s rt rid maxWaitTime now sleeps
             = Some (s', Throw (Error ''Lock acquisition timeout''), t)
           \<and> maxWaitTime < t - now \<and> t - now \<le> maxWaitTime + 100 + d
           \<and> isLocked s' rt rid"
proof -
  have "now - now \<le> maxWaitTime + 100 + d" using assms(3,4) by simp
  moreover have "maxWaitTime - (now - now) < 100 * int (length sleeps)" using assms(5) by simp
  ultimately obtain s' t where
    "acquireLock_loop s rt rid now maxWaitTime now sleeps
       = Some (s', Throw (Error ''Lock acquisition timeout''), t)"
    "maxWaitTime < t - now" "t - now \<le> maxWaitTime + 100 + d" "holds s' (getLockKey rt rid) l"
    using acquireLock_loop_timeout[OF assms(1,2), of now now maxWaitTime] by blast
  then show ?thesis
    by (auto simp: acquireLock_def isLocked_def dest: holds_has)
qed

theorem acquireLock_timeout_witness:
  "holds job42_held (getLockKey ''job'' ''42'')
     \<lparr>timestamp = 0, resourceType = ''job'', resourceId = ''42''\<rparr>
   \<and> (\<exists>s'. acquireLock job42_held ''job'' ''42'' 200 50
         [([], 0), ([OpPoll ''job'' ''1'' 60 5000 60, OpSweep 100, OpRelease ''job'' ''1''], 0), ([], 0)]
        = Some (s', Throw (Error ''Lock acquisition timeout''), 350))"
  using acquireLock_timeout [of job42_held "''job''" "''42''"
      "\<lparr>timestamp = 0, resourceType = ''job'', resourceId = ''42''\<rparr>"
      "[([], 0), ([OpPoll ''job'' ''1'' 60 5000 60, OpSweep 100, OpRelease ''job'' ''1''], 0), ([], 0)]"
      0 200 50]
  by (simp add: holds_def unique_keys_def acquireLock_def job42_held_def constructor_def
      acquire_poll_def getLockKey_def has_def Let_def releaseLock_def cleanupStaleLocks_def
      maxAge_def keeps_def)

subsection \<open>Success after the deadline\<close>

text \<open>
  C10. A poll that finds the key free stores the entry and returns success whatever the
  time, also later than \<open>maxWaitTime\<close> after the call began; it throws only if it finds
  the key held and the deadline passed. So for every held key and every wait there is a
  run (the holder releases during the first sleep that ends after the deadline) in
  which \<open>acquireLock\<close> returns success later than \<open>maxWaitTime\<close> after it began.
\<close>

theorem acquire_succeeds_after_deadline:
  "(\<not> has (locks s) (getLockKey rt rid) \<longrightarrow>
      snd (acquire_poll s rt rid startTime maxWaitTime now) = Return True
      \<and> locks (fst (acquire_poll s rt rid startTime maxWaitTime now)) =
          locks s @ [(getLockKey rt rid,
                      \<lparr>timestamp = now, resourceType = rt, resourceId = rid\<rparr>)])
   \<and> (snd (acquire_poll s rt rid startTime maxWaitTime now) = Throw e \<longrightarrow>
        has (locks s) (getLockKey rt rid) \<and> maxWaitTime < now - startTime)
   \<and> (has (locks s) (getLockKey rt rid) \<and> 0 \<le> maxWaitTime \<longrightarrow>
        (\<exists>sleeps s' t. acquireLock s rt rid maxWaitTime now sleeps = Some (s', Return True, t)
            \<and> maxWaitTime < t - now))"
proof (intro conjI impI)
  assume "\<not> has (locks s) (getLockKey rt rid)"
  from acquire_poll_free[OF this, of startTime maxWaitTime now]
  show "snd (acquire_poll s rt rid startTime maxWaitTime now) = Return True"
    and "locks (fst (acquire_poll s rt rid startTime maxWaitTime now)) =
          locks s @ [(getLockKey rt rid,
                      \<lparr>timestamp = now, resourceType = rt, resourceId = rid\<rparr>)]"
    by simp_all
next
  assume "snd (acquire_poll s rt rid startTime maxWaitTime now) = Throw e"
  then show "has (locks s) (getLockKey rt rid)" and "maxWaitTime < now - startTime"
    by (simp_all add: acquire_poll_def Let_def split: if_splits)
next
  assume a: "has (locks s) (getLockKey rt rid) \<and> 0 \<le> maxWaitTime"
  let ?n = "nat (maxWaitTime div 100)"
  from a have n: "int ?n = maxWaitTime div 100" by simp
  have "now + 100 * int ?n - now \<le> maxWaitTime"
    unfolding n by simp
  with a acquireLock_loop_late_success[of s rt rid now ?n now maxWaitTime]
  obtain s' where "acquireLock s rt rid maxWaitTime now (undisturbed ?n @ [([OpRelease rt rid], 0)])
           = Some (s', Return True, now + 100 * (int ?n + 1))"
    by (auto simp: acquireLock_def)
  moreover have "maxWaitTime < now + 100 * (int ?n + 1) - now"
    unfolding n by simp
  ultimately show "\<exists>sleeps s' t. acquireLock s rt rid maxWaitTime now sleeps = Some (s', Return True, t)
            \<and> maxWaitTime < t - now"
    by blast
qed

theorem acquire_succeeds_after_deadline_witness:
  "\<not> has (locks job42_held) (getLockKey ''job'' ''7'')
   \<and> snd (acquire_poll job42_held ''job'' ''7'' 0 200 300) = Return True
   \<and> snd (acquire_poll job42_held ''job'' ''42'' 0 200 300) = Throw (Error ''Lock acquisition timeout'')
   \<and> has (locks job42_held) (getLockKey ''job'' ''42'')
   \<and> (\<exists>s'. acquireLock job42_held ''job'' ''42'' 200 0
               [([], 0), ([], 0), ([OpRelease ''job'' ''42''], 0)] = Some (s', Return True, 300))
   \<and> (\<exists>sleeps s' t. acquireLock job42_held ''job'' ''42'' 200 0 sleeps = Some (s', Return True, t)
            \<and> 200 < t - 0)"
  using acquire_succeeds_after_deadline [of job42_held "''job''" "''7''" 0 200 300]
    acquire_succeeds_after_deadline [of job42_held "''job''" "''42''" 0 200 300
      "Error ''Lock acquisition timeout''"]
    acquire_succeeds_after_deadline [of job42_held "''job''" "''42''" 0 200 0]
  by (simp add: acquireLock_def job42_held_def constructor_def
      acquire_poll_def getLockKey_def has_def Let_def releaseLock_def)

subsection \<open>cleanupStaleLocks\<close>

text \<open>
  C6. On a table that is a proper map, one sweep at time \<open>now\<close> leaves exactly the
  entries with \<open>now - timestamp\<close> not above 30000, in their order; and when the entry of a
  key was older than that, the key is free afterwards and \<open>acquireLock\<close> on it returns
  at once, at the time it was called, whatever the sleeps it might have had.
\<close>

theorem cleanupStaleLocks_sweep:
  assumes "unique_keys s"
  shows "locks (cleanupStaleLocks s now) =
           filter (\<lambda>(k, l). \<not> now - timestamp l > 30000) (locks s)
     \<and> (\<forall>rt rid l mw t sleeps.
          map_of (locks s) (getLockKey rt rid) = Some l \<and> now - timestamp l > 30000 \<longrightarrow>
            \<not> isLocked (cleanupStaleLocks s now) rt rid \<and>
            (\<exists>s'. acquireLock (cleanupStaleLocks s now) rt rid mw t sleeps
                     = Some (s', Return True, t) \<and> isLocked s' rt rid))"
proof (intro conjI allI impI)
  show eq: "locks (cleanupStaleLocks s now) =
           filter (\<lambda>(k, l). \<not> now - timestamp l > 30000) (locks s)"
    using locks_cleanupStaleLocks[OF assms, of now] by (simp add: stale_def maxAge_def)
  fix rt rid l mw t sleeps
  assume a: "map_of (locks s) (getLockKey rt rid) = Some l \<and> now - timestamp l > 30000"
  let ?k = "getLockKey rt rid"
  have "\<And>l'. (?k, l') \<in> set (locks s) \<Longrightarrow> l' = l"
    using a assms by (auto simp: unique_keys_def)
  with a have "?k \<notin> fst ` set (locks (cleanupStaleLocks s now))"
    unfolding eq by (auto simp: image_iff)
  then have free: "\<not> has (locks (cleanupStaleLocks s now)) ?k"
    by (simp add: has_iff)
  then show "\<not> isLocked (cleanupStaleLocks s now) rt rid"
    by (simp add: isLocked_def)
  from acquire_poll_free[OF free, of t mw t]
  have "isLocked (fst (acquire_poll (cleanupStaleLocks s now) rt rid t mw t)) rt rid"
    by (simp add: isLocked_def has_iff)
  with acquireLock_free[OF free, of mw t sleeps]
  show "\<exists>s'. acquireLock (cleanupStaleLocks s now) rt rid mw t sleeps
                     = Some (s', Return True, t) \<and> isLocked s' rt rid"
    by blast
qed

theorem cleanupStaleLocks_sweep_witness:
  "unique_keys two_jobs
   \<and> locks (cleanupStaleLocks two_jobs 30005) =
       [(''job:2'', \<lparr>timestamp = 7, resourceType = ''job'', resourceId = ''2''\<rparr>)]
   \<and> map_of (locks two_jobs) (getLockKey ''job'' ''1'') =
       Some \<lparr>timestamp = 0, resourceType = ''job'', resourceId = ''1''\<rparr>
   \<and> \<not> isLocked (cleanupStaleLocks two_jobs 30005) ''job'' ''1''
   \<and> (\<exists>s'. acquireLock (cleanupStaleLocks two_jobs 30005) ''job'' ''1'' 5000 30010 []
              = Some (s', Return True, 30010))"
proof -
  have u: "unique_keys two_jobs"
    by (simp add: unique_keys_def two_jobs_def constructor_def acquire_poll_def
        getLockKey_def has_def Let_def)
  have m: "map_of (locks two_jobs) (getLockKey ''job'' ''1'') =
       Some \<lparr>timestamp = 0, resourceType = ''job'', resourceId = ''1''\<rparr>"
    by (simp add: two_jobs_def constructor_def acquire_poll_def getLockKey_def has_def Let_def)
  have l: "locks two_jobs = [(''job:1'', \<lparr>timestamp = 0, resourceType = ''job'', resourceId = ''1''\<rparr>),
      (''job:2'', \<lparr>timestamp = 7, resourceType = ''job'', resourceId = ''2''\<rparr>)]"
    by (simp add: two_jobs_def constructor_def acquire_poll_def getLockKey_def has_def Let_def)
  from cleanupStaleLocks_sweep[OF u, of 30005] m l
  show ?thesis using u by fastforce
qed

subsection \<open>The timeout comes before the sweep\<close>

text \<open>
  C9. The default wait is 5000 ms and the sweep reclaims at an age above 30000 ms. Take
  an entry that its holder never releases and a call with the default wait that begins
  when the entry is at most 24900 ms old, on exact timers, while the other requests
  release other keys only and sweeps run no later than the last poll of the call. The
  call throws the timeout between 5000 and 5100 ms after it began and the entry is still
  there; a sweep removes it exactly when it runs later than 30000 ms after the entry was
  stored, which is later than the timeout; a retry before that goes to sleep again, and
  a retry after such a sweep succeeds at once.
\<close>

theorem timeout_before_sweep:
  assumes "holds s (getLockKey rt rid) l"
    and "now - timestamp l \<le> 24900"
    and "\<forall>(others, late)\<in>set sleeps. late = 0 \<and>
           (\<forall>x\<in>set others. \<not> releases (getLockKey rt rid) x \<and> \<not> sweeps_after (now + 5100) x)"
    and "51 \<le> length sleeps"
  shows "maxWaitTime_default = 5000 \<and> maxAge = 30000 \<and> maxWaitTime_default < maxAge
    \<and> (\<exists>s' t. acquireLock s rt rid maxWaitTime_default now sleeps
                 = Some (s', Throw (Error ''Lock acquisition timeout''), t)
          \<and> 5000 < t - now \<and> t - now \<le> 5100
          \<and> holds s' (getLockKey rt rid) l
          \<and> (\<forall>ts. isLocked (cleanupStaleLocks s' ts) rt rid \<longleftrightarrow> ts - timestamp l \<le> 30000)
          \<and> (\<forall>ts. \<not> isLocked (cleanupStaleLocks s' ts) rt rid \<longrightarrow> t < ts)
          \<and> (\<forall>t2. snd (acquire_poll s' rt rid t2 maxWaitTime_default t2) = Sleep)
          \<and> (\<forall>ts t2 sl. 30000 < ts - timestamp l \<longrightarrow>
                (\<exists>s''. acquireLock (cleanupStaleLocks s' ts) rt rid maxWaitTime_default t2 sl
                          = Some (s'', Return True, t2))))"
proof -
  let ?k = "getLockKey rt rid"
  have keeps: "\<forall>(others, late)\<in>set sleeps. 0 \<le> late \<and> late \<le> 0 \<and>
           (\<forall>x\<in>set others. keeps ?k (timestamp l) x)"
  proof -
    have "\<And>x. \<not> sweeps_after (now + 5100) x \<Longrightarrow> \<not> sweeps_after (timestamp l + maxAge) x"
      subgoal for x using assms(2) by (cases x) (simp_all add: maxAge_def)
      done
    with assms(3) show ?thesis by (fastforce simp: keeps_def)
  qed
  have fuel: "maxWaitTime_default < 100 * int (length sleeps)"
    using assms(4) by (simp add: maxWaitTime_default_def)
  have "\<exists>s' t. acquireLock_loop s rt rid now maxWaitTime_default now sleeps
             = Some (s', Throw (Error ''Lock acquisition timeout''), t)
           \<and> maxWaitTime_default < t - now \<and> t - now \<le> maxWaitTime_default + 100 + 0
           \<and> holds s' ?k l"
    by (rule acquireLock_loop_timeout[OF assms(1) keeps]) (use fuel in \<open>simp_all add: maxWaitTime_default_def\<close>)
  then obtain s' t where
    r: "acquireLock s rt rid maxWaitTime_default now sleeps
         = Some (s', Throw (Error ''Lock acquisition timeout''), t)"
    and t: "5000 < t - now" "t - now \<le> 5100"
    and h: "holds s' ?k l"
    by (auto simp: acquireLock_def maxWaitTime_default_def)
  from h have u: "unique_keys s'" and m: "map_of (locks s') ?k = Some l"
    by (simp_all add: holds_def)
  have sweep: "isLocked (cleanupStaleLocks s' ts) rt rid \<longleftrightarrow> ts - timestamp l \<le> 30000" for ts
  proof -
    have "\<And>l'. (?k, l') \<in> set (locks s') \<longleftrightarrow> l' = l"
      by (rule holds_entry[OF h])
    then show ?thesis
      by (auto simp: isLocked_def has_iff locks_cleanupStaleLocks[OF u] stale_def maxAge_def image_iff)
  qed
  have after: "\<not> isLocked (cleanupStaleLocks s' ts) rt rid \<longrightarrow> t < ts" for ts
    using sweep[of ts] t(2) assms(2) by auto
  have retry_early: "snd (acquire_poll s' rt rid t2 maxWaitTime_default t2) = Sleep" for t2
    using holds_has[OF h] by (simp add: acquire_poll_def Let_def maxWaitTime_default_def)
  have retry_late: "30000 < ts - timestamp l \<longrightarrow>
                (\<exists>s''. acquireLock (cleanupStaleLocks s' ts) rt rid maxWaitTime_default t2 sl
                          = Some (s'', Return True, t2))" for ts t2 sl
  proof
    assume "30000 < ts - timestamp l"
    with sweep[of ts] have "\<not> has (locks (cleanupStaleLocks s' ts)) ?k"
      by (simp add: isLocked_def)
    from acquireLock_free[OF this] show "\<exists>s''. acquireLock (cleanupStaleLocks s' ts) rt rid maxWaitTime_default t2 sl
                          = Some (s'', Return True, t2)" by blast
  qed
  from r t h sweep after retry_early retry_late show ?thesis
    by (simp add: maxWaitTime_default_def maxAge_def)
qed

theorem timeout_before_sweep_witness:
  "holds job42_held (getLockKey ''job'' ''42'')
     \<lparr>timestamp = 0, resourceType = ''job'', resourceId = ''42''\<rparr>
   \<and> (50::int) - 0 \<le> 24900
   \<and> 51 \<le> length (([OpSweep 5000, OpRelease ''job'' ''1''], 0) # undisturbed 50)
   \<and> (\<exists>s' t. acquireLock job42_held ''job'' ''42'' maxWaitTime_default 50
                  (([OpSweep 5000, OpRelease ''job'' ''1''], 0) # undisturbed 50)
                 = Some (s', Throw (Error ''Lock acquisition timeout''), t)
          \<and> 5000 < t - 50 \<and> t - 50 \<le> 5100
          \<and> isLocked (cleanupStaleLocks s' 30000) ''job'' ''42''
          \<and> \<not> isLocked (cleanupStaleLocks s' 30001) ''job'' ''42''
          \<and> (\<exists>s''. acquireLock (cleanupStaleLocks s' 30001) ''job'' ''42'' maxWaitTime_default 30002 []
                          = Some (s'', Return True, 30002)))"
proof -
  let ?sleeps = "([OpSweep 5000, OpRelease ''job'' ''1''], 0) # undisturbed 50"
  have others: "\<forall>(others, late)\<in>set ?sleeps.
          late = 0 \<and> (\<forall>x\<in>set others. \<not> releases (getLockKey ''job'' ''42'') x
                                 \<and> \<not> sweeps_after (50 + 5100) x)"
    by (simp add: undisturbed_def getLockKey_def)
  have enough: "51 \<le> length ?sleeps"
    by (simp add: undisturbed_def)
  have early: "50 - timestamp \<lparr>timestamp = 0, resourceType = ''job'', resourceId = ''42''\<rparr>
      \<le> 24900"
    by simp
  from timeout_before_sweep [OF holds_job42 early others enough]
  obtain s' t where
    "acquireLock job42_held ''job'' ''42'' maxWaitTime_default 50 ?sleeps
       = Some (s', Throw (Error ''Lock acquisition timeout''), t)"
    "5000 < t - 50" "t - 50 \<le> 5100"
    "\<forall>ts. isLocked (cleanupStaleLocks s' ts) ''job'' ''42'' \<longleftrightarrow>
       ts - timestamp \<lparr>timestamp = 0, resourceType = ''job'', resourceId = ''42''\<rparr> \<le> 30000"
    "\<forall>ts t2 sl. 30000 < ts - timestamp \<lparr>timestamp = 0, resourceType = ''job'', resourceId = ''42''\<rparr> \<longrightarrow>
       (\<exists>s''. acquireLock (cleanupStaleLocks s' ts) ''job'' ''42'' maxWaitTime_default t2 sl
                  = Some (s'', Return True, t2))"
    by blast
  then have "acquireLock job42_held ''job'' ''42'' maxWaitTime_default 50 ?sleeps
                 = Some (s', Throw (Error ''Lock acquisition timeout''), t)
          \<and> 5000 < t - 50 \<and> t - 50 \<le> 5100
          \<and> isLocked (cleanupStaleLocks s' 30000) ''job'' ''42''
          \<and> \<not> isLocked (cleanupStaleLocks s' 30001) ''job'' ''42''
          \<and> (\<exists>s''. acquireLock (cleanupStaleLocks s' 30001) ''job'' ''42'' maxWaitTime_default 30002 []
                          = Some (s'', Return True, 30002))"
    by simp
  moreover have "(50::int) - 0 \<le> 24900"
    by simp
  ultimately show ?thesis
    using holds_job42 enough by blast
qed

subsection \<open>The middleware: what runs and what is registered\<close>

lemma acquire_poll_cases:
  "acquire_poll s rt rid st mw now = (s', r) \<Longrightarrow>
     (r = Sleep \<and> s' = s) \<or> r = Throw (Error ''Lock acquisition timeout'')
     \<or> (r = Return True \<and> isLocked s' rt rid)"
  by (auto simp: acquire_poll_def Let_def isLocked_def has_update split: if_splits)

lemma acquireLock_loop_result:
  "acquireLock_loop s rt rid st mw now sleeps = Some (s', r, t) \<Longrightarrow>
     r = Throw (Error ''Lock acquisition timeout'') \<or> (r = Return True \<and> isLocked s' rt rid)"
proof (induction sleeps arbitrary: s now)
  case Nil
  obtain s1 r1 where p: "acquire_poll s rt rid st mw now = (s1, r1)"
    by (cases "acquire_poll s rt rid st mw now")
  from acquire_poll_cases[OF p] Nil show ?case
    by (auto simp: p)
next
  case (Cons sl sleeps)
  obtain others late where sl: "sl = (others, late)" by (cases sl)
  obtain s1 r1 where p: "acquire_poll s rt rid st mw now = (s1, r1)"
    by (cases "acquire_poll s rt rid st mw now")
  from acquire_poll_cases[OF p] Cons.prems Cons.IH show ?case
    by (auto simp: p sl)
qed

lemma middleware_locked_path:
  assumes "params_id req = Some rid" and "rid \<noteq> []"
    and "req_method req \<in> {''PUT'', ''DELETE'', ''PATCH''}"
  shows "concurrencyMiddleware rt s req res now sleeps =
     (case acquireLock s rt rid maxWaitTime_default now sleeps of
        None \<Rightarrow> None
      | Some (s', Throw e, t) \<Rightarrow> Some (s', res, middleware_catch e)
      | Some (s', r, t) \<Rightarrow> Some (s', res_on res ''finish'' (ReleaseLock rt rid), Next))"
  using assms by (simp add: concurrencyMiddleware_def)

lemma middleware_catch_not_Next: "middleware_catch e \<noteq> Next"
  by (simp add: middleware_catch_def)

text \<open>Callbacks only ever delete entries, so a key that is free stays free under them.\<close>

lemma call_keeps_free: "\<not> has (locks s) k \<Longrightarrow> \<not> has (locks (call s cb)) k"
  by (cases cb) (simp add: releaseLock_def Let_def has_delete)

lemma call_ReleaseLock_free: "\<not> has (locks (call s (ReleaseLock rt rid))) (getLockKey rt rid)"
  by (simp add: releaseLock_def Let_def has_delete)

lemma fold_listeners_keeps_free:
  "\<not> has (locks s) k \<Longrightarrow>
     \<not> has (locks (fold (\<lambda>(e, cb) s'. if e = ev then call s' cb else s') ls s)) k"
proof (induction ls arbitrary: s)
  case Nil
  then show ?case by simp
next
  case (Cons x ls)
  obtain e cb where x: "x = (e, cb)" by (cases x)
  have "\<not> has (locks (if e = ev then call s cb else s)) k"
    using Cons.prems call_keeps_free[OF Cons.prems, of cb] by simp
  from Cons.IH[OF this] show ?case by (simp add: x)
qed

lemma fold_listeners_releases:
  "(ev, ReleaseLock rt rid) \<in> set ls \<Longrightarrow>
     \<not> has (locks (fold (\<lambda>(e, cb) s'. if e = ev then call s' cb else s') ls s))
         (getLockKey rt rid)"
proof (induction ls arbitrary: s)
  case Nil
  then show ?case by simp
next
  case (Cons x ls)
  show ?case
  proof (cases "x = (ev, ReleaseLock rt rid)")
    case True
    have "\<not> has (locks (call s (ReleaseLock rt rid))) (getLockKey rt rid)"
      by (rule call_ReleaseLock_free)
    from fold_listeners_keeps_free[OF this] show ?thesis
      by (simp add: True)
  next
    case False
    with Cons.prems have "(ev, ReleaseLock rt rid) \<in> set ls" by simp
    from Cons.IH[OF this] show ?thesis by simp
  qed
qed

lemma emit_keeps_free: "\<not> has (locks s) k \<Longrightarrow> \<not> has (locks (emit s res ev)) k"
  unfolding emit_def by (rule fold_listeners_keeps_free)

lemma emit_all_Cons: "emit_all s res (e # evs) = emit_all (emit s res e) res evs"
  by (simp add: emit_all_def)

lemma emit_all_keeps_free: "\<not> has (locks s) k \<Longrightarrow> \<not> has (locks (emit_all s res evs)) k"
proof (induction evs arbitrary: s)
  case Nil
  then show ?case by (simp add: emit_all_def)
next
  case (Cons e evs)
  from Cons.IH[OF emit_keeps_free[OF Cons.prems]] show ?case
    unfolding emit_all_Cons .
qed

lemma emit_all_releases:
  assumes "(ev, ReleaseLock rt rid) \<in> set (listeners res)" and "ev \<in> set evs"
  shows "\<not> has (locks (emit_all s res evs)) (getLockKey rt rid)"
  using assms(2)
proof (induction evs arbitrary: s)
  case Nil
  then show ?case by simp
next
  case (Cons e evs)
  show ?case
  proof (cases "e = ev")
    case True
    have "\<not> has (locks (emit s res e)) (getLockKey rt rid)"
      unfolding emit_def True by (rule fold_listeners_releases[OF assms(1)])
    then show ?thesis unfolding emit_all_Cons by (rule emit_all_keeps_free)
  next
    case False
    with Cons.prems have "ev \<in> set evs" by auto
    from Cons.IH[OF this] show ?thesis unfolding emit_all_Cons .
  qed
qed

lemma emit_res_on_other: "ev \<noteq> ev' \<Longrightarrow> emit s (res_on res ev' cb) ev = emit s res ev"
  by (simp add: emit_def res_on_def)

lemma emit_all_res_on_other:
  "ev' \<notin> set evs \<Longrightarrow> emit_all s (res_on res ev' cb) evs = emit_all s res evs"
proof (induction evs arbitrary: s)
  case Nil
  then show ?case by (simp add: emit_all_def)
next
  case (Cons e evs)
  then have "e \<noteq> ev'" and "ev' \<notin> set evs" by auto
  then show ?case
    unfolding emit_all_Cons by (simp add: emit_res_on_other Cons.IH)
qed

lemma emit_all_no_listeners: "listeners res = [] \<Longrightarrow> emit_all s res evs = s"
proof (induction evs arbitrary: s)
  case Nil
  then show ?case by (simp add: emit_all_def)
next
  case (Cons e evs)
  then have "emit s res e = s" by (simp add: emit_def)
  with Cons show ?case unfolding emit_all_Cons by simp
qed

subsection \<open>Which requests the middleware locks\<close>

text \<open>
  C7. When \<open>req.params.id\<close> is undefined or empty, or the method is not one of PUT,
  DELETE and PATCH (so in particular for GET), the middleware calls \<open>next()\<close> at once
  and leaves the table and the response as they are, whatever the table holds: it neither
  waits nor registers anything. Only a PUT, DELETE or PATCH with an id goes through
  \<open>acquireLock\<close>: on a free key it takes the lock, registers the release and calls
  \<open>next()\<close>; on a held key it is suspended.
\<close>

theorem middleware_pass_through:
  "(params_id req = None \<or> params_id req = Some [] \<or>
      req_method req \<notin> {''PUT'', ''DELETE'', ''PATCH''}
      \<longrightarrow> concurrencyMiddleware rt s req res now sleeps = Some (s, res, Next))
   \<and> (req_method req = ''GET'' \<longrightarrow>
        concurrencyMiddleware rt s req res now sleeps = Some (s, res, Next))
   \<and> (params_id req = Some rid \<and> rid \<noteq> [] \<and>
        req_method req \<in> {''PUT'', ''DELETE'', ''PATCH''} \<longrightarrow>
        (\<not> isLocked s rt rid \<longrightarrow>
           (\<exists>s'. concurrencyMiddleware rt s req res now sleeps
                    = Some (s', res_on res ''finish'' (ReleaseLock rt rid), Next)
                  \<and> isLocked s' rt rid))
        \<and> (isLocked s rt rid \<longrightarrow> concurrencyMiddleware rt s req res now [] = None))"
proof (intro conjI impI)
  assume "params_id req = None \<or> params_id req = Some [] \<or>
      req_method req \<notin> {''PUT'', ''DELETE'', ''PATCH''}"
  then show "concurrencyMiddleware rt s req res now sleeps = Some (s, res, Next)"
    by (auto simp: concurrencyMiddleware_def split: option.splits)
next
  assume "req_method req = ''GET''"
  then show "concurrencyMiddleware rt s req res now sleeps = Some (s, res, Next)"
    by (simp add: concurrencyMiddleware_def split: option.splits)
next
  assume a: "params_id req = Some rid \<and> rid \<noteq> [] \<and>
        req_method req \<in> {''PUT'', ''DELETE'', ''PATCH''}"
  assume free: "\<not> isLocked s rt rid"
  then have f: "\<not> has (locks s) (getLockKey rt rid)" by (simp add: isLocked_def)
  from acquire_poll_free[OF f, of now maxWaitTime_default now]
  have "isLocked (fst (acquire_poll s rt rid now maxWaitTime_default now)) rt rid"
    by (simp add: isLocked_def has_iff)
  with a acquireLock_free[OF f, of maxWaitTime_default now sleeps]
  show "\<exists>s'. concurrencyMiddleware rt s req res now sleeps
                    = Some (s', res_on res ''finish'' (ReleaseLock rt rid), Next)
                  \<and> isLocked s' rt rid"
    by (simp add: middleware_locked_path)
next
  assume a: "params_id req = Some rid \<and> rid \<noteq> [] \<and>
        req_method req \<in> {''PUT'', ''DELETE'', ''PATCH''}"
  assume "isLocked s rt rid"
  then have "acquireLock s rt rid maxWaitTime_default now [] = None"
    by (simp add: acquireLock_def acquire_poll_def Let_def isLocked_def maxWaitTime_default_def)
  with a show "concurrencyMiddleware rt s req res now [] = None"
    by (simp add: middleware_locked_path)
qed

theorem middleware_pass_through_witness:
  "isLocked job42_held ''job'' ''42''
   \<and> req_method get42 = ''GET'' \<and> params_id get42 = Some ''42''
   \<and> concurrencyMiddleware ''job'' job42_held get42 fresh_response 10 [] =
        Some (job42_held, fresh_response, Next)
   \<and> concurrencyMiddleware ''job'' job42_held \<lparr>req_method = ''DELETE'', params_id = None\<rparr>
        fresh_response 10 [] = Some (job42_held, fresh_response, Next)
   \<and> concurrencyMiddleware ''job'' job42_held put42 fresh_response 10 [] = None
   \<and> \<not> isLocked constructor ''job'' ''42''
   \<and> (\<exists>s'. concurrencyMiddleware ''job'' constructor put42 fresh_response 10 [] =
        Some (s', res_on fresh_response ''finish'' (ReleaseLock ''job'' ''42''), Next))"
  using middleware_pass_through [of get42 "''job''" job42_held fresh_response 10 "[]" "''42''"]
    middleware_pass_through [of "\<lparr>req_method = ''DELETE'', params_id = None\<rparr>" "''job''"
      job42_held fresh_response 10 "[]" "''42''"]
    middleware_pass_through [of put42 "''job''" job42_held fresh_response 10 "[]" "''42''"]
    middleware_pass_through [of put42 "''job''" constructor fresh_response 10 "[]" "''42''"]
  by (auto simp: get42_def put42_def isLocked_def job42_held_def constructor_def
      acquire_poll_def getLockKey_def has_def Let_def)

subsection \<open>What the middleware does when acquireLock throws\<close>

text \<open>With a logger whose calls all return, the code is the one of the earlier sections.\<close>

lemma acquire_poll_with_quiet:
  "acquire_poll_with quiet s rt rid st mw now = acquire_poll s rt rid st mw now"
  by (simp add: acquire_poll_with_def acquire_poll_def quiet_def Let_def)

lemma acquireLock_loop_with_quiet:
  "acquireLock_loop_with quiet s rt rid st mw now sleeps = acquireLock_loop s rt rid st mw now sleeps"
proof (induction sleeps arbitrary: s now)
  case Nil
  show ?case by (simp add: acquire_poll_with_quiet)
next
  case (Cons sl sleeps)
  obtain others late where sl: "sl = (others, late)" by (cases sl)
  show ?case
    unfolding sl acquireLock_loop_with.simps acquireLock_loop.simps acquire_poll_with_quiet Cons.IH ..
qed

lemma acquireLock_with_quiet:
  "acquireLock_with quiet s rt rid mw now sleeps = acquireLock s rt rid mw now sleeps"
  by (simp add: acquireLock_with_def acquireLock_def acquireLock_loop_with_quiet)

lemma concurrencyMiddleware_with_quiet:
  "concurrencyMiddleware_with quiet rt s req res now sleeps =
     concurrencyMiddleware rt s req res now sleeps"
  unfolding concurrencyMiddleware_with_def concurrencyMiddleware_def acquireLock_with_quiet
    middleware_catch_def ..

text \<open>
  C8. Take a PUT, DELETE or PATCH with an id whose \<open>acquireLock\<close> throws an error \<open>e\<close>,
  whatever the logger does. If the message of \<open>e\<close> is \<open>Lock acquisition timeout\<close>, the
  middleware answers 409 with the error text
  \<open>Resource is currently being modified by another request\<close>; otherwise it calls
  \<open>next(e)\<close> with that very error. In both cases it registers no listener on the
  response and does not call \<open>next()\<close>, so the wrapped handler does not run.
\<close>

theorem middleware_failure_handling:
  "params_id req = Some rid \<and> rid \<noteq> [] \<and> req_method req \<in> {''PUT'', ''DELETE'', ''PATCH''}
     \<and> acquireLock_with lg s rt rid maxWaitTime_default now sleeps = Some (s', Throw e, t)
   \<longrightarrow> (message e = ''Lock acquisition timeout'' \<longrightarrow>
          concurrencyMiddleware_with lg rt s req res now sleeps
            = Some (s', res, Json 409 ''Resource is currently being modified by another request''))
     \<and> (message e \<noteq> ''Lock acquisition timeout'' \<longrightarrow>
          concurrencyMiddleware_with lg rt s req res now sleeps = Some (s', res, NextError e))"
  by (simp add: concurrencyMiddleware_with_def)

theorem middleware_failure_handling_witness:
  "params_id put42 = Some ''42'' \<and> req_method put42 = ''PUT''
   \<and> (\<exists>s' t. acquireLock_with quiet job42_held ''job'' ''42'' maxWaitTime_default 0
                  (undisturbed 51)
                = Some (s', Throw (Error ''Lock acquisition timeout''), t)
        \<and> concurrencyMiddleware_with quiet ''job'' job42_held put42 fresh_response 0
             (undisturbed 51)
            = Some (s', fresh_response,
                    Json 409 ''Resource is currently being modified by another request''))
   \<and> (\<exists>s'. acquireLock_with disk_full constructor ''job'' ''42'' maxWaitTime_default 0 []
                = Some (s', Throw (Error ''disk full''), 0)
        \<and> concurrencyMiddleware_with disk_full ''job'' constructor put42 fresh_response 0 []
            = Some (s', fresh_response, NextError (Error ''disk full'')))"
proof -
  have p: "params_id put42 = Some ''42''" "req_method put42 = ''PUT''"
    by (simp_all add: put42_def)
  have "\<exists>s' t. acquireLock_loop job42_held ''job'' ''42'' 0 maxWaitTime_default 0 (undisturbed 51)
             = Some (s', Throw (Error ''Lock acquisition timeout''), t)
           \<and> maxWaitTime_default < t - 0 \<and> t - 0 \<le> maxWaitTime_default + 100 + 0
           \<and> holds s' (getLockKey ''job'' ''42'')
                \<lparr>timestamp = 0, resourceType = ''job'', resourceId = ''42''\<rparr>"
    by (rule acquireLock_loop_timeout[OF holds_job42])
       (simp_all add: undisturbed_def maxWaitTime_default_def)
  then obtain s1 t1 where
    r1: "acquireLock_with quiet job42_held ''job'' ''42'' maxWaitTime_default 0 (undisturbed 51)
             = Some (s1, Throw (Error ''Lock acquisition timeout''), t1)"
    by (auto simp: acquireLock_with_quiet acquireLock_def)
  from middleware_failure_handling [of put42 "''42''" quiet job42_held "''job''" 0
      "undisturbed 51" s1 "Error ''Lock acquisition timeout''" t1 fresh_response] r1 p
  have m1: "concurrencyMiddleware_with quiet ''job'' job42_held put42 fresh_response 0
             (undisturbed 51)
            = Some (s1, fresh_response,
                    Json 409 ''Resource is currently being modified by another request'')"
    by simp
  obtain s2 where
    r2: "acquireLock_with disk_full constructor ''job'' ''42'' maxWaitTime_default 0 []
                = Some (s2, Throw (Error ''disk full''), 0)"
    by (simp add: acquireLock_with_def acquire_poll_with_def disk_full_def constructor_def
        getLockKey_def has_def Let_def)
  from middleware_failure_handling [of put42 "''42''" disk_full constructor "''job''" 0
      "[]" s2 "Error ''disk full''" 0 fresh_response] r2 p
  have m2: "concurrencyMiddleware_with disk_full ''job'' constructor put42 fresh_response 0 []
            = Some (s2, fresh_response, NextError (Error ''disk full''))"
    by simp
  from p r1 m1 r2 m2 show ?thesis by blast
qed

subsection \<open>When the middleware releases\<close>

text \<open>
  C3, as the claim states it: after the middleware has taken the lock and called the
  handler, the release runs when the response lifecycle completes on any exit path,
  also when the connection is aborted. The middleware registers the release for the
  event \<open>finish\<close> alone. A request \<open>PUT /42\<close> takes the lock of job 42; the connection
  is aborted, so the response emits \<open>close\<close> and never \<open>finish\<close>; the entry is still in
  the table.
\<close>

theorem middleware_abort_counterexample:
  "concurrencyMiddleware ''job'' constructor put42 fresh_response 0 [] =
     Some (job42_held, res_on fresh_response ''finish'' (ReleaseLock ''job'' ''42''), Next)
   \<and> isLocked (emit_all job42_held
                 (res_on fresh_response ''finish'' (ReleaseLock ''job'' ''42''))
                 (lifecycle Aborted)) ''job'' ''42''"
  by (simp add: concurrencyMiddleware_def put42_def fresh_response_def job42_held_def
      constructor_def acquireLock_def acquire_poll_def getLockKey_def has_def Let_def
      maxWaitTime_default_def res_on_def emit_all_def emit_def isLocked_def)

text \<open>
  C3, amended: after the middleware has taken the lock and called the handler, the key
  is locked and the release is registered as a listener of the event \<open>finish\<close> of the
  response. Whatever happened to the table meanwhile, once the response has emitted
  \<open>finish\<close> (a success body or an error body was sent) no entry of the key remains. A
  lifecycle that never emits \<open>finish\<close> (the connection was aborted before the response
  was sent) does not run the release: on a response without other listeners the table
  stays as it is, and the entry is left to an explicit release or to the sweep.
\<close>

theorem middleware_release_on_finish:
  assumes "params_id req = Some rid" and "rid \<noteq> []"
    and "req_method req \<in> {''PUT'', ''DELETE'', ''PATCH''}"
    and "concurrencyMiddleware rt s req res now sleeps = Some (s', res', Next)"
  shows "isLocked s' rt rid
    \<and> res' = res_on res ''finish'' (ReleaseLock rt rid)
    \<and> (\<forall>s'' evs. ''finish'' \<in> set evs \<longrightarrow> \<not> isLocked (emit_all s'' res' evs) rt rid)
    \<and> \<not> isLocked (emit_all s' res' (lifecycle BodySent)) rt rid
    \<and> (\<forall>s'' evs. ''finish'' \<notin> set evs \<longrightarrow> emit_all s'' res' evs = emit_all s'' res evs)
    \<and> (listeners res = [] \<longrightarrow> emit_all s' res' (lifecycle Aborted) = s')"
proof -
  from assms(4) obtain r t where
    a: "acquireLock s rt rid maxWaitTime_default now sleeps = Some (s', r, t)"
    and r: "\<And>e. r \<noteq> Throw e" and res': "res' = res_on res ''finish'' (ReleaseLock rt rid)"
    unfolding middleware_locked_path[OF assms(1-3)]
    by (auto simp: middleware_catch_not_Next split: option.splits prod.splits outcome.splits)
  from acquireLock_loop_result[OF a[unfolded acquireLock_def]] r
  have locked: "isLocked s' rt rid" by auto
  have reg: "(''finish'', ReleaseLock rt rid) \<in> set (listeners res')"
    by (simp add: res' res_on_def)
  have fin: "''finish'' \<in> set evs \<longrightarrow> \<not> isLocked (emit_all s'' res' evs) rt rid" for s'' evs
    using emit_all_releases[OF reg, of evs s''] by (simp add: isLocked_def)
  have nofin: "''finish'' \<notin> set evs \<longrightarrow> emit_all s'' res' evs = emit_all s'' res evs" for s'' evs
    unfolding res' by (simp add: emit_all_res_on_other)
  have sent: "\<not> isLocked (emit_all s' res' (lifecycle BodySent)) rt rid"
    using fin[of "lifecycle BodySent" s'] by simp
  have aborted: "listeners res = [] \<longrightarrow> emit_all s' res' (lifecycle Aborted) = s'"
    using nofin[of "lifecycle Aborted" s'] by (simp add: emit_all_no_listeners)
  from locked res' fin nofin sent aborted show ?thesis by blast
qed

theorem middleware_release_on_finish_witness:
  "params_id put42 = Some ''42'' \<and> req_method put42 = ''PUT''
   \<and> concurrencyMiddleware ''job'' constructor put42 fresh_response 0 [] =
       Some (job42_held, res_on fresh_response ''finish'' (ReleaseLock ''job'' ''42''), Next)
   \<and> isLocked job42_held ''job'' ''42''
   \<and> \<not> isLocked (emit_all job42_held
                 (res_on fresh_response ''finish'' (ReleaseLock ''job'' ''42''))
                 (lifecycle BodySent)) ''job'' ''42''
   \<and> emit_all job42_held (res_on fresh_response ''finish'' (ReleaseLock ''job'' ''42''))
        (lifecycle Aborted) = job42_held"
proof -
  have p: "params_id put42 = Some ''42''" "''42'' \<noteq> []"
    "req_method put42 \<in> {''PUT'', ''DELETE'', ''PATCH''}" "req_method put42 = ''PUT''"
    by (simp_all add: put42_def)
  have m: "concurrencyMiddleware ''job'' constructor put42 fresh_response 0 [] =
       Some (job42_held, res_on fresh_response ''finish'' (ReleaseLock ''job'' ''42''), Next)"
    by (simp add: concurrencyMiddleware_def put42_def job42_held_def
      constructor_def acquireLock_def acquire_poll_def getLockKey_def has_def Let_def
      maxWaitTime_default_def)
  have "listeners fresh_response = []" by (simp add: fresh_response_def)
  with middleware_release_on_finish [OF p(1-3) m] p m show ?thesis
    by simp
qed

end
